theory Spec2Isabelle
  imports Complex_Main
begin

section \<open>Data model\<close>

text \<open>
  The program is \<^verbatim>\<open>pagerank.py\<close>. A page is a file name. A Python \<^verbatim>\<open>dict\<close> is an
  association list in insertion order whose keys are pairwise different; a Python
  \<^verbatim>\<open>set\<close> is a list without duplicates, in whatever order the interpreter iterates it.
  Python floats are modelled by exact reals, so every statement below is about the
  arithmetic the code writes down, not about rounding.
\<close>

type_synonym page = string

type_synonym 'v dict = "(page \<times> 'v) list"

type_synonym corpus = "page list dict"

datatype error = ZeroDivisionError | KeyError | IndexError | ValueError

definition keys :: "'v dict \<Rightarrow> page list" where
  "keys m = map fst m"

text \<open>\<^verbatim>\<open>m[k]\<close> as an expression: raises \<^verbatim>\<open>KeyError\<close> when the key is absent.\<close>

definition dict_get :: "'v dict \<Rightarrow> page \<Rightarrow> error + 'v" where
  "dict_get m k = (case map_of m k of None \<Rightarrow> Inl KeyError | Some v \<Rightarrow> Inr v)"

text \<open>\<^verbatim>\<open>m[k] = v\<close>: an existing key keeps its position, a new key is appended.\<close>

fun dict_set :: "'v dict \<Rightarrow> page \<Rightarrow> 'v \<Rightarrow> 'v dict" where
  "dict_set [] k v = [(k, v)]"
| "dict_set ((k', v') # m) k v = (if k' = k then (k, v) # m else (k', v') # dict_set m k v)"

text \<open>\<^verbatim>\<open>m[k] += x\<close>: reads \<^verbatim>\<open>m[k]\<close> first, so an absent key raises \<^verbatim>\<open>KeyError\<close>.\<close>

definition dict_add :: "real dict \<Rightarrow> page \<Rightarrow> real \<Rightarrow> error + real dict" where
  "dict_add m k x = (case dict_get m k of Inl e \<Rightarrow> Inl e | Inr v \<Rightarrow> Inr (dict_set m k (v + x)))"

text \<open>\<^verbatim>\<open>sum(m.values())\<close>.\<close>

definition total_mass :: "real dict \<Rightarrow> real" where
  "total_mass m = sum_list (map snd m)"

text \<open>The invariants of a graph model: a dict whose values are sets of keys, without self-links.\<close>

definition graph_model :: "corpus \<Rightarrow> bool" where
  "graph_model c \<longleftrightarrow>
     distinct (keys c) \<and>
     list_all (\<lambda>(p, links). distinct links \<and> list_all (\<lambda>l. l \<in> set (keys c)) links \<and> p \<notin> set links) c"

section \<open>crawl\<close>

text \<open>
  The directory is given as the list of its entries in \<^verbatim>\<open>os.listdir\<close> order, each file
  name with the list that \<^verbatim>\<open>re.findall\<close> returns on the file's contents. Reading the
  files and matching the regular expression are not modelled.
\<close>

definition endswith :: "string \<Rightarrow> string \<Rightarrow> bool" where
  "endswith s suffix \<longleftrightarrow> length suffix \<le> length s \<and> drop (length s - length suffix) s = suffix"

text \<open>First loop: \<^verbatim>\<open>pages[filename] = set(links) - {filename}\<close> for every \<^verbatim>\<open>.html\<close> entry.\<close>

definition crawl_extract :: "(string \<times> string list) list \<Rightarrow> corpus" where
  "crawl_extract listing =
     fold (\<lambda>(filename, links) pages.
             if \<not> endswith filename ''.html'' then pages
             else dict_set pages filename (removeAll filename (remdups links)))
          listing []"

text \<open>
  Second loop, one pass of its body:
  \<^verbatim>\<open>pages[filename] = set(link for link in pages[filename] if link in pages)\<close>.
  The loop runs over the keys of \<^verbatim>\<open>pages\<close>, so the lookup always finds the key.
\<close>

definition restrict_step :: "page \<Rightarrow> corpus \<Rightarrow> corpus" where
  "restrict_step filename pages =
     (case map_of pages filename of
        None \<Rightarrow> pages
      | Some links \<Rightarrow> dict_set pages filename (filter (\<lambda>link. link \<in> set (keys pages)) links))"

definition crawl_restrict :: "corpus \<Rightarrow> corpus" where
  "crawl_restrict pages0 = fold restrict_step (keys pages0) pages0"

definition crawl :: "(string \<times> string list) list \<Rightarrow> corpus" where
  "crawl listing = crawl_restrict (crawl_extract listing)"

section \<open>transition_model\<close>

text \<open>Line 47: \<^verbatim>\<open>corpus[page] if page in corpus else corpus.keys()\<close>.\<close>

definition linked_pages_of :: "corpus \<Rightarrow> page \<Rightarrow> page list" where
  "linked_pages_of corpus page =
     (case map_of corpus page of Some links \<Rightarrow> links | None \<Rightarrow> keys corpus)"

text \<open>Line 50: the guard \<^verbatim>\<open>if linked_pages else 0\<close> keeps the division from raising.\<close>

definition link_prob_of :: "real \<Rightarrow> page list \<Rightarrow> real" where
  "link_prob_of damping_factor linked_pages =
     (if linked_pages \<noteq> [] then damping_factor / real (length linked_pages) else 0)"

text \<open>Lines 58-59: \<^verbatim>\<open>for p in linked_pages: transition_probabilities[p] += link_prob\<close>.\<close>

fun add_links :: "real dict \<Rightarrow> page list \<Rightarrow> real \<Rightarrow> error + real dict" where
  "add_links tp [] link_prob = Inr tp"
| "add_links tp (p # ps) link_prob =
     (case dict_add tp p link_prob of Inl e \<Rightarrow> Inl e | Inr tp' \<Rightarrow> add_links tp' ps link_prob)"

definition transition_model :: "corpus \<Rightarrow> page \<Rightarrow> real \<Rightarrow> error + real dict" where
  "transition_model corpus page damping_factor =
     (let linked_pages = linked_pages_of corpus page;
          link_prob = link_prob_of damping_factor linked_pages
      in if length corpus = 0 then Inl ZeroDivisionError
         else
           let random_prob = (1 - damping_factor) / real (length corpus);
               transition_probabilities = fold (\<lambda>p tp. dict_set tp p random_prob) (keys corpus) []
           in add_links transition_probabilities linked_pages link_prob)"

section \<open>The random source\<close>

text \<open>
  The pseudo-random generator is an explicit argument: \<open>rnd i\<close> is the \<open>i\<close>-th uniform
  draw, a real in \<open>[0, 1)\<close>. \<^verbatim>\<open>random.choice(seq)\<close> raises \<^verbatim>\<open>IndexError\<close> on an empty
  sequence and otherwise indexes \<^verbatim>\<open>seq\<close> at a random position below its length, here
  the draw scaled by the length.
\<close>

definition random_choice :: "real \<Rightarrow> 'a list \<Rightarrow> error + 'a" where
  "random_choice u seq =
     (if seq = [] then Inl IndexError
      else let i = nat \<lfloor>u * real (length seq)\<rfloor>
           in if i < length seq then Inr (seq ! i) else Inl IndexError)"

text \<open>\<^verbatim>\<open>itertools.accumulate(weights)\<close>: the running sums.\<close>

fun accumulate_from :: "real \<Rightarrow> real list \<Rightarrow> real list" where
  "accumulate_from s [] = []"
| "accumulate_from s (w # ws) = (s + w) # accumulate_from (s + w) ws"

definition accumulate :: "real list \<Rightarrow> real list" where
  "accumulate weights = accumulate_from 0 weights"

text \<open>\<^verbatim>\<open>bisect.bisect(a, x, lo, hi)\<close>: the binary search of the standard library.\<close>

function bisect :: "real list \<Rightarrow> real \<Rightarrow> nat \<Rightarrow> nat \<Rightarrow> nat" where
  "bisect a x lo hi =
     (if lo < hi
      then let mid = (lo + hi) div 2
           in if x < a ! mid then bisect a x lo mid else bisect a x (mid + 1) hi
      else lo)"
  by pat_completeness auto
termination
  by (relation "measure (\<lambda>(a, x, lo, hi). hi - lo)") auto

text \<open>
  \<^verbatim>\<open>random.choices(population, weights=weights)[0]\<close>: the weights are accumulated, a total
  that is not positive raises \<^verbatim>\<open>ValueError\<close>, and the draw scaled by the total is looked
  up among the running sums.
\<close>

definition random_choices :: "real \<Rightarrow> 'a list \<Rightarrow> real list \<Rightarrow> error + 'a" where
  "random_choices u population weights =
     (let n = length population;
          cum_weights = accumulate weights
      in if length cum_weights \<noteq> n then Inl ValueError
         else if cum_weights = [] then Inl IndexError
         else let total = last cum_weights
              in if total \<le> 0 then Inl ValueError
                 else Inr (population ! bisect cum_weights (u * total) 0 (n - 1)))"

section \<open>sample_pagerank\<close>

text \<open>
  The body of \<^verbatim>\<open>for _ in range(n)\<close>, run \<open>k\<close> more times; \<open>i\<close> counts the draws taken
  from the random source so far.
\<close>

fun sample_loop ::
  "(nat \<Rightarrow> real) \<Rightarrow> corpus \<Rightarrow> real \<Rightarrow> int \<Rightarrow> nat \<Rightarrow> nat \<Rightarrow> real dict \<Rightarrow> page \<Rightarrow> error + real dict"
where
  "sample_loop rnd corpus damping_factor n 0 i page_rank current_page = Inr page_rank"
| "sample_loop rnd corpus damping_factor n (Suc k) i page_rank current_page =
     (case dict_add page_rank current_page (1 / real_of_int n) of
        Inl e \<Rightarrow> Inl e
      | Inr page_rank' \<Rightarrow>
          (case transition_model corpus current_page damping_factor of
             Inl e \<Rightarrow> Inl e
           | Inr transition_probabilities \<Rightarrow>
               (case random_choices (rnd i) (keys transition_probabilities)
                                    (map snd transition_probabilities) of
                  Inl e \<Rightarrow> Inl e
                | Inr next_page \<Rightarrow>
                    sample_loop rnd corpus damping_factor n k (Suc i) page_rank' next_page)))"

text \<open>Line 72: \<^verbatim>\<open>{page: 0 for page in corpus}\<close>.\<close>

definition zero_ranks :: "corpus \<Rightarrow> real dict" where
  "zero_ranks corpus = fold (\<lambda>page pr. dict_set pr page 0) (keys corpus) []"

text \<open>\<^verbatim>\<open>range(n)\<close> has \<open>nat n\<close> elements: none when \<open>n\<close> is zero or negative.\<close>

definition sample_pagerank :: "(nat \<Rightarrow> real) \<Rightarrow> corpus \<Rightarrow> real \<Rightarrow> int \<Rightarrow> error + real dict" where
  "sample_pagerank rnd corpus damping_factor n =
     (let page_rank = zero_ranks corpus
      in case random_choice (rnd 0) (keys corpus) of
           Inl e \<Rightarrow> Inl e
         | Inr current_page \<Rightarrow>
             sample_loop rnd corpus damping_factor n (nat n) 1 page_rank current_page)"

section \<open>iterate_pagerank\<close>

text \<open>
  \<^verbatim>\<open>page_rank[p]\<close> inside the loop. Both rank dicts are built over the keys of the corpus
  and are only read at keys of the corpus, so the \<^verbatim>\<open>KeyError\<close> branch is never taken
  (lemmas \<open>initial_ranks_has_key\<close> and \<open>update_ranks_has_key\<close>); it is given the value 0
  here.
\<close>

definition rank_of :: "real dict \<Rightarrow> page \<Rightarrow> real" where
  "rank_of page_rank p = (case map_of page_rank p of Some v \<Rightarrow> v | None \<Rightarrow> 0)"

text \<open>
  Lines 108-113, the new rank of one page. The division by \<^verbatim>\<open>len(linked_pages)\<close> is only
  reached when \<^verbatim>\<open>page in linked_pages\<close>, and the division by \<open>N\<close> only inside
  \<^verbatim>\<open>for page in corpus\<close>, so neither divisor is zero where Python evaluates it.
\<close>

definition new_rank :: "corpus \<Rightarrow> real \<Rightarrow> nat \<Rightarrow> real dict \<Rightarrow> page \<Rightarrow> real" where
  "new_rank corpus damping_factor N page_rank page =
     fold (\<lambda>(linking_page, linked_pages) total.
             if page \<in> set linked_pages
             then total + damping_factor * rank_of page_rank linking_page / real (length linked_pages)
             else total)
          corpus ((1 - damping_factor) / real N)"

text \<open>Lines 104-115: one synchronous update of all ranks.\<close>

definition update_ranks :: "corpus \<Rightarrow> real \<Rightarrow> nat \<Rightarrow> real dict \<Rightarrow> real dict" where
  "update_ranks corpus damping_factor N page_rank =
     fold (\<lambda>page new_page_rank.
             dict_set new_page_rank page (new_rank corpus damping_factor N page_rank page))
          (keys corpus) []"

text \<open>Line 118: the convergence test.\<close>

definition converged :: "corpus \<Rightarrow> real dict \<Rightarrow> real dict \<Rightarrow> bool" where
  "converged corpus new_page_rank page_rank \<longleftrightarrow>
     list_all (\<lambda>page. \<bar>rank_of new_page_rank page - rank_of page_rank page\<bar> < 1 / 1000) (keys corpus)"

text \<open>
  The \<^verbatim>\<open>while True\<close> loop. It has no bound, so the model is a partial function: the value
  \<open>None\<close> stands for a loop that never leaves. On \<^verbatim>\<open>break\<close> the rank from before the
  update is returned.
\<close>

partial_function (option) iterate_loop :: "corpus \<Rightarrow> real \<Rightarrow> nat \<Rightarrow> real dict \<Rightarrow> real dict option" where
  "iterate_loop corpus damping_factor N page_rank =
     (let new_page_rank = update_ranks corpus damping_factor N page_rank
      in if converged corpus new_page_rank page_rank then Some page_rank
         else iterate_loop corpus damping_factor N new_page_rank)"

declare iterate_loop.simps [code]

definition initial_ranks :: "corpus \<Rightarrow> nat \<Rightarrow> real dict" where
  "initial_ranks corpus N = fold (\<lambda>page pr. dict_set pr page (1 / real N)) (keys corpus) []"

definition iterate_pagerank :: "corpus \<Rightarrow> real \<Rightarrow> real dict option" where
  "iterate_pagerank corpus damping_factor =
     (let N = length corpus;
          page_rank = initial_ranks corpus N
      in iterate_loop corpus damping_factor N page_rank)"

section \<open>The update formula as the specification writes it\<close>


section \<open>Invariants used in the proofs\<close>

text \<open>Every stored link set is a set and does not hold its own page.\<close>

definition links_clean :: "corpus \<Rightarrow> bool" where
  "links_clean m \<longleftrightarrow> (\<forall>f ls. map_of m f = Some ls \<longrightarrow> distinct ls \<and> f \<notin> set ls)"

text \<open>The link sets of the pages in \<open>D\<close> hold keys of the dict only.\<close>

definition links_inside :: "page set \<Rightarrow> corpus \<Rightarrow> bool" where
  "links_inside D m \<longleftrightarrow> (\<forall>f ls. map_of m f = Some ls \<longrightarrow> f \<in> D \<longrightarrow> set ls \<subseteq> set (keys m))"


section \<open>Dictionaries\<close>

lemma keys_dict_set: "keys (dict_set m k v) = (if k \<in> set (keys m) then keys m else keys m @ [k])"
  by (induction m) (force simp: keys_def)+

lemma map_of_dict_set: "map_of (dict_set m k v) = (map_of m)(k \<mapsto> v)"
  by (induction m) (auto simp: fun_eq_iff)

lemma values_dict_set: "set (map snd (dict_set m k v)) \<subseteq> insert v (set (map snd m))"
  by (induction m) (force split: if_splits)+

lemma fold_dict_set_fresh:
  "distinct ks \<Longrightarrow> set ks \<inter> set (keys acc) = {} \<Longrightarrow>
   fold (\<lambda>p m. dict_set m p (f p)) ks acc = acc @ map (\<lambda>p. (p, f p)) ks"
proof (induction ks arbitrary: acc)
  case Nil
  then show ?case by simp
next
  case (Cons k ks)
  have fresh: "k \<notin> set (keys acc)" using Cons.prems by auto
  have step: "dict_set acc k (f k) = acc @ [(k, f k)]"
    using fresh by (induction acc) (auto simp: keys_def)
  have "set ks \<inter> set (keys (acc @ [(k, f k)])) = {}"
    using Cons.prems by (auto simp: keys_def)
  with Cons show ?case by (simp add: step)
qed

lemma fold_dict_set_keys:
  "distinct ks \<Longrightarrow> fold (\<lambda>p m. dict_set m p (f p)) ks [] = map (\<lambda>p. (p, f p)) ks"
  using fold_dict_set_fresh [of ks "[]" f] by (simp add: keys_def)

lemma values_fold_dict_set_const:
  "set (map snd (fold (\<lambda>p m. dict_set m p c) ks acc)) \<subseteq> insert c (set (map snd acc))"
proof (induction ks arbitrary: acc)
  case Nil
  then show ?case by auto
next
  case (Cons k ks)
  have "set (map snd (fold (\<lambda>p m. dict_set m p c) ks (dict_set acc k c)))
          \<subseteq> insert c (set (map snd (dict_set acc k c)))"
    by (rule Cons.IH)
  also have "\<dots> \<subseteq> insert c (set (map snd acc))"
    using values_dict_set [of acc k c] by auto
  finally show ?case by simp
qed

section \<open>The transition model on an empty graph and at a sink\<close>


text \<open>
  C1. The claim is that the returned probabilities sum to 1 for every current node.
  At a page that is in the graph and has no outbound links the code adds no link term,
  and the returned values sum to \<open>1 - damping_factor\<close>: here 3/20 for damping 0.85.
\<close>

theorem transition_model_sink_mass:
  "transition_model [(''A'', [''B'']), (''B'', [])] ''B'' (85 / 100)
     = Inr [(''A'', 3 / 40), (''B'', 3 / 40)]
   \<and> total_mass [(''A'', 3 / 40), (''B'', 3 / 40)] = 3 / 20"
  by (simp add: transition_model_def linked_pages_of_def link_prob_of_def keys_def Let_def
                total_mass_def)

text \<open>
  C2. The claim is that a page without outbound links is treated as linking to every
  page. The test on line 47 is \<^verbatim>\<open>page in corpus\<close>, so for a sink that is in the graph
  the linked pages are its own empty set, not the keys of the graph, and the link
  probability is 0.
\<close>

theorem linked_pages_of_sink:
  "linked_pages_of [(''A'', [''B'']), (''B'', [])] ''B'' = []
   \<and> keys [(''A'', [''B'']), (''B'', [])] = [''A'', ''B'']
   \<and> link_prob_of (85 / 100) (linked_pages_of [(''A'', [''B'']), (''B'', [])] ''B'') = 0"
  by (simp add: linked_pages_of_def link_prob_of_def keys_def)

lemma linked_pages_of_absent:
  "page \<notin> set (keys corpus) \<Longrightarrow> linked_pages_of corpus page = keys corpus"
proof -
  assume "page \<notin> set (keys corpus)"
  then have "map_of corpus page = None"
    by (simp add: keys_def map_of_eq_None_iff)
  then show ?thesis by (simp add: linked_pages_of_def)
qed

section \<open>The iteration on graphs with a sink\<close>

text \<open>
  C3. The claim is that the ranks of the iterative estimator sum to 1 at every
  iteration and in the result. On the graph A \<rightarrow> B with B a sink and damping 0.85 the
  first update already has total 23/40, and the returned ranks have total 171/800.
\<close>

theorem iterate_pagerank_leaks_mass:
  "total_mass (update_ranks [(''A'', [''B'']), (''B'', [])] (85 / 100) 2
                 (initial_ranks [(''A'', [''B'']), (''B'', [])] 2)) = 23 / 40
   \<and> iterate_pagerank [(''A'', [''B'']), (''B'', [])] (85 / 100)
       = Some [(''A'', 3 / 40), (''B'', 111 / 800)]
   \<and> total_mass [(''A'', 3 / 40), (''B'', 111 / 800)] = 171 / 800"
  by (simp add: iterate_pagerank_def initial_ranks_def keys_def iterate_loop.simps
                update_ranks_def new_rank_def converged_def rank_of_def total_mass_def)

text \<open>
  C5. The claim is that a graph of one page without links gets rank 1 from both
  estimators. The iterative estimator returns \<open>1 - damping_factor\<close> for it: 3/20 for
  damping 0.85.
\<close>

theorem iterate_pagerank_single_sink:
  "iterate_pagerank [(''A'', [])] (85 / 100) = Some [(''A'', 3 / 20)]"
  by (simp add: iterate_pagerank_def initial_ranks_def keys_def iterate_loop.simps
                update_ranks_def new_rank_def converged_def rank_of_def)

section \<open>The sample count is not validated\<close>

text \<open>
  C8, as claimed: a sample count that is not positive makes the sampling estimator
  fail. It does not: with a count of 0 the loop body never runs and the zero ranks are
  returned.
\<close>

theorem sample_pagerank_zero_count_returns:
  "sample_pagerank (\<lambda>i. 0) [(''A'', [])] (85 / 100) 0 = Inr [(''A'', 0)]"
  by (simp add: sample_pagerank_def random_choice_def zero_ranks_def keys_def)

text \<open>
  C8, amended: for a non-empty graph, any damping factor and any sample count that is
  zero or negative, the sampling estimator returns without error the ranks it started
  from, and every one of them is 0.
\<close>

theorem sample_pagerank_nonpositive_count:
  assumes "corpus \<noteq> []" and "n \<le> 0" and "0 \<le> rnd 0" and "rnd 0 < 1"
  shows "sample_pagerank rnd corpus damping_factor n = Inr (zero_ranks corpus)
         \<and> set (map snd (zero_ranks corpus)) \<subseteq> {0}"
proof -
  let ?len = "length (keys corpus)"
  have pos: "0 < ?len" using assms(1) by (simp add: keys_def)
  have "rnd 0 * real ?len < real ?len" using assms(4) pos by simp
  then have "\<lfloor>rnd 0 * real ?len\<rfloor> < int ?len" by (simp add: floor_less_iff)
  then have lt: "nat \<lfloor>rnd 0 * real ?len\<rfloor> < ?len" using pos by linarith
  have kne: "keys corpus \<noteq> []" using assms(1) by (simp add: keys_def)
  have run: "sample_pagerank rnd corpus damping_factor n = Inr (zero_ranks corpus)"
    using assms(2) lt kne by (simp add: sample_pagerank_def random_choice_def Let_def)
  have zero: "set (map snd (zero_ranks corpus)) \<subseteq> {0}"
    using values_fold_dict_set_const [of 0 "keys corpus" "[]"] by (simp add: zero_ranks_def)
  from run zero show ?thesis by simp
qed

theorem sample_pagerank_nonpositive_count_witness:
  "[(''A'', [''B'']), (''B'', [])] \<noteq> [] \<and> (-3::int) \<le> 0
   \<and> sample_pagerank (\<lambda>i. 1 / 2) [(''A'', [''B'']), (''B'', [])] (85 / 100) (-3)
       = Inr [(''A'', 0), (''B'', 0)]"
  using sample_pagerank_nonpositive_count
          [of "[(''A'', [''B'']), (''B'', [])]" "-3" "\<lambda>i. 1 / 2" "85 / 100"]
  by (simp add: zero_ranks_def keys_def)

section \<open>The graph built by crawl\<close>

lemma distinct_keys_dict_set: "distinct (keys m) \<Longrightarrow> distinct (keys (dict_set m k v))"
  by (simp add: keys_dict_set)

lemma map_of_Some_key: "map_of m k = Some v \<Longrightarrow> k \<in> set (keys m)"
proof -
  assume "map_of m k = Some v"
  then have "(k, v) \<in> set m" by (rule map_of_SomeD)
  then have "fst (k, v) \<in> fst ` set m" by (rule imageI)
  then show ?thesis by (simp add: keys_def)
qed

lemma links_clean_dict_set:
  assumes "links_clean m" and "distinct ls" and "f \<notin> set ls"
  shows "links_clean (dict_set m f ls)"
  unfolding links_clean_def
proof (intro allI impI)
  fix g ks
  assume "map_of (dict_set m f ls) g = Some ks"
  then have upd: "((map_of m)(f \<mapsto> ls)) g = Some ks" by (simp add: map_of_dict_set)
  show "distinct ks \<and> g \<notin> set ks"
  proof (cases "g = f")
    case True
    with upd have "ks = ls" by simp
    with assms(2,3) True show ?thesis by simp
  next
    case False
    with upd have "map_of m g = Some ks" by simp
    with assms(1) show ?thesis unfolding links_clean_def by blast
  qed
qed

lemma crawl_extract_fold:
  "distinct (keys pages) \<Longrightarrow> links_clean pages \<Longrightarrow>
   distinct (keys (fold (\<lambda>(filename, links) pages.
             if \<not> endswith filename ''.html'' then pages
             else dict_set pages filename (removeAll filename (remdups links))) listing pages))
   \<and> links_clean (fold (\<lambda>(filename, links) pages.
             if \<not> endswith filename ''.html'' then pages
             else dict_set pages filename (removeAll filename (remdups links))) listing pages)"
proof (induction listing arbitrary: pages)
  case Nil
  then show ?case by simp
next
  case (Cons e listing)
  obtain filename links where e: "e = (filename, links)" by (cases e)
  show ?case
  proof (cases "endswith filename ''.html''")
    case False
    with Cons e show ?thesis by simp
  next
    case True
    let ?p = "dict_set pages filename (removeAll filename (remdups links))"
    have d: "distinct (keys ?p)" using Cons.prems(1) by (rule distinct_keys_dict_set)
    have c: "links_clean ?p"
      using Cons.prems(2) by (rule links_clean_dict_set) (simp_all add: distinct_removeAll)
    from Cons.IH [OF d c] True e show ?thesis by simp
  qed
qed

lemma crawl_extract_clean:
  "distinct (keys (crawl_extract listing)) \<and> links_clean (crawl_extract listing)"
  unfolding crawl_extract_def
  by (rule crawl_extract_fold) (simp_all add: keys_def links_clean_def)

lemma keys_restrict_step: "keys (restrict_step f pages) = keys pages"
proof (cases "map_of pages f")
  case None
  then show ?thesis by (simp add: restrict_step_def)
next
  case (Some ls)
  then have "f \<in> set (keys pages)" by (rule map_of_Some_key)
  with Some show ?thesis by (simp add: restrict_step_def keys_dict_set)
qed

lemma links_clean_restrict_step:
  assumes "links_clean pages"
  shows "links_clean (restrict_step f pages)"
proof (cases "map_of pages f")
  case None
  with assms show ?thesis by (simp add: restrict_step_def)
next
  case (Some ls)
  from assms Some have "distinct ls \<and> f \<notin> set ls"
    unfolding links_clean_def by blast
  then have "links_clean (dict_set pages f (filter (\<lambda>link. link \<in> set (keys pages)) ls))"
    by (intro links_clean_dict_set [OF assms]) simp_all
  with Some show ?thesis by (simp add: restrict_step_def)
qed

lemma links_inside_restrict_step:
  assumes "links_inside D pages"
  shows "links_inside (insert f D) (restrict_step f pages)"
  unfolding links_inside_def keys_restrict_step
proof (intro allI impI)
  fix g ks
  assume look: "map_of (restrict_step f pages) g = Some ks" and g: "g \<in> insert f D"
  show "set ks \<subseteq> set (keys pages)"
  proof (cases "map_of pages f")
    case None
    with look have old: "map_of pages g = Some ks" by (simp add: restrict_step_def)
    with None have "g \<noteq> f" by auto
    with g have "g \<in> D" by simp
    with assms old show ?thesis unfolding links_inside_def by blast
  next
    case (Some ls)
    with look have upd:
      "((map_of pages)(f \<mapsto> filter (\<lambda>link. link \<in> set (keys pages)) ls)) g = Some ks"
      by (simp add: restrict_step_def map_of_dict_set)
    show ?thesis
    proof (cases "g = f")
      case True
      with upd have "ks = filter (\<lambda>link. link \<in> set (keys pages)) ls" by simp
      then show ?thesis by auto
    next
      case False
      with upd have old: "map_of pages g = Some ks" by simp
      from False g have "g \<in> D" by simp
      with assms old show ?thesis unfolding links_inside_def by blast
    qed
  qed
qed

lemma crawl_restrict_fold:
  "links_clean pages \<Longrightarrow> links_inside D pages \<Longrightarrow>
   keys (fold restrict_step ks pages) = keys pages
   \<and> links_clean (fold restrict_step ks pages)
   \<and> links_inside (D \<union> set ks) (fold restrict_step ks pages)"
proof (induction ks arbitrary: pages D)
  case Nil
  then show ?case by simp
next
  case (Cons k ks)
  have c: "links_clean (restrict_step k pages)"
    using Cons.prems(1) by (rule links_clean_restrict_step)
  have i: "links_inside (insert k D) (restrict_step k pages)"
    using Cons.prems(2) by (rule links_inside_restrict_step)
  from Cons.IH [OF c i] show ?case by (simp add: keys_restrict_step)
qed

text \<open>
  C9. Whatever the directory listing is, the graph that \<^verbatim>\<open>crawl\<close> returns is a dict
  (its keys are pairwise different), every link of every page is a key of the graph,
  no page links to itself, and every link set is a set. \<^verbatim>\<open>crawl\<close> has no failing
  branch: a page whose link set ends up empty is kept like any other.
\<close>

theorem crawl_builds_graph_model:
  "distinct (keys (crawl listing))
   \<and> (\<forall>(p, links) \<in> set (crawl listing).
         set links \<subseteq> set (keys (crawl listing)) \<and> p \<notin> set links \<and> distinct links)"
proof -
  let ?e = "crawl_extract listing"
  have e: "distinct (keys ?e)" "links_clean ?e" using crawl_extract_clean by simp_all
  have "links_inside {} ?e" by (simp add: links_inside_def)
  from crawl_restrict_fold [OF e(2) this, of "keys ?e"]
  have k: "keys (crawl listing) = keys ?e"
    and c: "links_clean (crawl listing)"
    and i: "links_inside (set (keys ?e)) (crawl listing)"
    by (simp_all add: crawl_def crawl_restrict_def)
  have d: "distinct (keys (crawl listing))" using e(1) k by simp
  have entry: "set links \<subseteq> set (keys (crawl listing)) \<and> p \<notin> set links \<and> distinct links"
    if "(p, links) \<in> set (crawl listing)" for p links
  proof -
    have m: "map_of (crawl listing) p = Some links"
      using d that by (simp add: keys_def)
    have pk: "p \<in> set (keys ?e)" using map_of_Some_key [OF m] k by simp
    have a: "distinct links \<and> p \<notin> set links"
      using c m unfolding links_clean_def by blast
    have b: "set links \<subseteq> set (keys (crawl listing))"
      using i m pk unfolding links_inside_def by blast
    from a b show ?thesis by simp
  qed
  have "\<forall>(p, links) \<in> set (crawl listing).
          set links \<subseteq> set (keys (crawl listing)) \<and> p \<notin> set links \<and> distinct links"
  proof
    fix x
    assume x: "x \<in> set (crawl listing)"
    obtain p links where px: "x = (p, links)" by (cases x)
    from entry [of p links] x px
    show "case x of (p, links) \<Rightarrow>
            set links \<subseteq> set (keys (crawl listing)) \<and> p \<notin> set links \<and> distinct links"
      by simp
  qed
  with d show ?thesis by (rule conjI)
qed

lemma crawl_example:
  "crawl [(''a.html'', [''b.html'', ''a.html'', ''c.html'', ''b.html'', ''x.txt'']),
          (''b.html'', []), (''x.txt'', [''a.html''])]
     = [(''a.html'', [''b.html'']), (''b.html'', [])]"
  by code_simp

theorem crawl_builds_graph_model_witness:
  "crawl [(''a.html'', [''b.html'', ''a.html'', ''c.html'', ''b.html'', ''x.txt'']),
          (''b.html'', []), (''x.txt'', [''a.html''])]
     = [(''a.html'', [''b.html'']), (''b.html'', [])]
   \<and> distinct (keys [(''a.html'', [''b.html'']), (''b.html'', [])])
   \<and> set [''b.html''] \<subseteq> set (keys [(''a.html'', [''b.html'']), (''b.html'', [])])
   \<and> ''a.html'' \<notin> set [''b.html'']"
  using crawl_builds_graph_model
     [of "[(''a.html'', [''b.html'', ''a.html'', ''c.html'', ''b.html'', ''x.txt'']),
          (''b.html'', []), (''x.txt'', [''a.html''])]"]
  unfolding crawl_example by simp

section \<open>What the iteration returns\<close>



lemma map_of_fold_dict_set:
  "map_of (fold (\<lambda>p m. dict_set m p (f p)) ks acc) q
     = (if q \<in> set ks then Some (f q) else map_of acc q)"
proof (induction ks arbitrary: acc)
  case Nil
  then show ?case by simp
next
  case (Cons k ks)
  show ?case by (simp add: Cons.IH map_of_dict_set)
qed

lemma initial_ranks_has_key:
  "p \<in> set (keys corpus) \<Longrightarrow> map_of (initial_ranks corpus N) p = Some (1 / real N)"
  by (simp add: initial_ranks_def map_of_fold_dict_set)

lemma update_ranks_has_key:
  "p \<in> set (keys corpus) \<Longrightarrow>
   map_of (update_ranks corpus d N r) p = Some (new_rank corpus d N r p)"
  by (simp add: update_ranks_def map_of_fold_dict_set)






section \<open>Termination of the iteration\<close>


















section \<open>A run of the iteration that never ends\<close>







section \<open>The sampling estimator\<close>

text \<open>
  Every pass of the loop adds \<open>1 / n\<close> to one rank and draws the next page among the keys
  of the corpus. On a graph model the transition model cannot fail, and the weights it
  returns have a positive total as long as the damping factor is below 1, so the
  weighted draw cannot fail either.
\<close>

lemma key_has_value: "k \<in> set (keys m) \<Longrightarrow> \<exists>v. map_of m k = Some v"
proof -
  assume "k \<in> set (keys m)"
  then have "k \<in> fst ` set m" by (simp add: keys_def)
  then have "map_of m k \<noteq> None" by (simp add: map_of_eq_None_iff)
  then show ?thesis by blast
qed

lemma dict_add_present:
  "map_of m k = Some v \<Longrightarrow> dict_add m k x = Inr (dict_set m k (v + x))"
  by (simp add: dict_add_def dict_get_def)

lemma total_mass_dict_set:
  "map_of m k = Some v \<Longrightarrow> total_mass (dict_set m k (v + x)) = total_mass m + x"
proof (induction m)
  case Nil
  then show ?case by simp
next
  case (Cons e m)
  obtain k' v' where e: "e = (k', v')" by (cases e)
  show ?case
  proof (cases "k' = k")
    case True
    with Cons.prems e have "v' = v" by simp
    with True e show ?thesis by (simp add: total_mass_def)
  next
    case False
    with Cons.prems e have "map_of m k = Some v" by simp
    from Cons.IH [OF this] False e show ?thesis by (simp add: total_mass_def)
  qed
qed

lemma dict_add_step:
  assumes "k \<in> set (keys m)"
  shows "\<exists>m'. dict_add m k x = Inr m' \<and> keys m' = keys m \<and> total_mass m' = total_mass m + x
              \<and> (0 \<le> x \<longrightarrow> (\<forall>v \<in> set (map snd m). 0 \<le> v) \<longrightarrow> (\<forall>v \<in> set (map snd m'). 0 \<le> v))"
proof -
  from key_has_value [OF assms] obtain v where v: "map_of m k = Some v" by blast
  let ?m' = "dict_set m k (v + x)"
  have a: "dict_add m k x = Inr ?m'" using v by (rule dict_add_present)
  have b: "keys ?m' = keys m" using assms by (simp add: keys_dict_set)
  have c: "total_mass ?m' = total_mass m + x" using v by (rule total_mass_dict_set)
  have d: "\<forall>w \<in> set (map snd ?m'). 0 \<le> w"
    if x: "0 \<le> x" and nn: "\<forall>w \<in> set (map snd m). 0 \<le> w"
  proof
    fix w
    assume "w \<in> set (map snd ?m')"
    with values_dict_set [of m k "v + x"] have "w = v + x \<or> w \<in> set (map snd m)" by blast
    moreover have "v \<in> set (map snd m)"
      using map_of_SomeD [OF v] by (force simp: image_iff)
    ultimately show "0 \<le> w" using x nn by auto
  qed
  from a b c d show ?thesis by blast
qed


lemma add_links_total:
  assumes "set ps \<subseteq> set (keys tp)"
  shows "\<exists>tp'. add_links tp ps x = Inr tp' \<and> keys tp' = keys tp
               \<and> total_mass tp' = total_mass tp + real (length ps) * x"
  using assms
proof (induction ps arbitrary: tp)
  case Nil
  then show ?case by simp
next
  case (Cons p ps)
  from Cons.prems have "p \<in> set (keys tp)" by simp
  from dict_add_step [OF this, of x] obtain tp1 where
    a: "dict_add tp p x = Inr tp1" and k: "keys tp1 = keys tp"
    and t: "total_mass tp1 = total_mass tp + x" by blast
  from Cons.prems k have "set ps \<subseteq> set (keys tp1)" by simp
  from Cons.IH [OF this] obtain tp' where
    b: "add_links tp1 ps x = Inr tp'" and k': "keys tp' = keys tp1"
    and t': "total_mass tp' = total_mass tp1 + real (length ps) * x" by blast
  have "add_links tp (p # ps) x = Inr tp'" using a b by simp
  moreover have "keys tp' = keys tp" using k k' by simp
  moreover have "total_mass tp' = total_mass tp + real (length (p # ps)) * x"
    using t t' by (simp add: algebra_simps)
  ultimately show ?case by blast
qed

lemma linked_pages_inside:
  assumes "graph_model corpus"
  shows "set (linked_pages_of corpus page) \<subseteq> set (keys corpus)"
proof (cases "map_of corpus page")
  case None
  then show ?thesis by (simp add: linked_pages_of_def)
next
  case (Some links)
  then have "(page, links) \<in> set corpus" by (rule map_of_SomeD)
  with assms have "list_all (\<lambda>l. l \<in> set (keys corpus)) links"
    unfolding graph_model_def list_all_iff by blast
  then have "set links \<subseteq> set (keys corpus)" by (auto simp: list_all_iff)
  with Some show ?thesis by (simp add: linked_pages_of_def)
qed

lemma transition_model_total:
  assumes "graph_model corpus" and "corpus \<noteq> []"
  shows "\<exists>tp. transition_model corpus page d = Inr tp \<and> keys tp = keys corpus
              \<and> total_mass tp = (1 - d) + (if linked_pages_of corpus page = [] then 0 else d)"
proof -
  let ?N = "real (length corpus)"
  let ?rp = "(1 - d) / ?N"
  let ?linked = "linked_pages_of corpus page"
  let ?lp = "link_prob_of d ?linked"
  let ?tp0 = "fold (\<lambda>p tp. dict_set tp p ?rp) (keys corpus) []"
  have dk: "distinct (keys corpus)" using assms(1) by (simp add: graph_model_def)
  have tp0: "?tp0 = map (\<lambda>p. (p, ?rp)) (keys corpus)" using dk by (rule fold_dict_set_keys)
  have k0: "keys ?tp0 = keys corpus" unfolding tp0 by (simp add: keys_def o_def)
  have N: "?N \<noteq> 0" using assms(2) by simp
  have "total_mass ?tp0 = ?N * ?rp"
    unfolding tp0 by (simp add: total_mass_def o_def keys_def sum_list_triv)
  then have t0: "total_mass ?tp0 = 1 - d" using N by simp
  have "set ?linked \<subseteq> set (keys ?tp0)"
    using linked_pages_inside [OF assms(1)] k0 by simp
  from add_links_total [OF this, of ?lp] obtain tp where
    a: "add_links ?tp0 ?linked ?lp = Inr tp" and k: "keys tp = keys ?tp0"
    and t: "total_mass tp = total_mass ?tp0 + real (length ?linked) * ?lp" by blast
  have run: "transition_model corpus page d = Inr tp"
    using a assms(2) by (simp add: transition_model_def Let_def)
  have "real (length ?linked) * ?lp = (if ?linked = [] then 0 else d)"
    by (simp add: link_prob_of_def)
  with t t0 have "total_mass tp = (1 - d) + (if ?linked = [] then 0 else d)" by simp
  with run k k0 show ?thesis by simp
qed

lemma length_accumulate_from: "length (accumulate_from s ws) = length ws"
  by (induction ws arbitrary: s) simp_all

lemma last_accumulate_from: "ws \<noteq> [] \<Longrightarrow> last (accumulate_from s ws) = s + sum_list ws"
proof (induction ws arbitrary: s)
  case Nil
  then show ?case by simp
next
  case (Cons w ws)
  show ?case
  proof (cases "ws = []")
    case True
    then show ?thesis by simp
  next
    case False
    then have "accumulate_from (s + w) ws \<noteq> []"
      using length_accumulate_from [of "s + w" ws] by auto
    with Cons.IH [OF False, of "s + w"] show ?thesis by (simp add: algebra_simps)
  qed
qed

lemma bisect_bounds: "lo \<le> hi \<Longrightarrow> lo \<le> bisect a x lo hi \<and> bisect a x lo hi \<le> hi"
proof (induction a x lo hi rule: bisect.induct)
  case (1 a x lo hi)
  show ?case
  proof (cases "lo < hi")
    case False
    with "1.prems" show ?thesis by (subst bisect.simps, subst (2) bisect.simps) simp
  next
    case True
    let ?mid = "(lo + hi) div 2"
    have m: "lo \<le> ?mid" "?mid < hi" using True by simp_all
    show ?thesis
    proof (cases "x < a ! ?mid")
      case left: True
      from "1.IH"(1) [OF True refl left] m
      have "lo \<le> bisect a x lo ?mid \<and> bisect a x lo ?mid \<le> ?mid" by simp
      moreover have "bisect a x lo hi = bisect a x lo ?mid"
        using True left by (subst bisect.simps) (simp add: Let_def)
      ultimately show ?thesis using m by simp
    next
      case right: False
      from "1.IH"(2) [OF True refl right] m
      have "?mid + 1 \<le> bisect a x (?mid + 1) hi \<and> bisect a x (?mid + 1) hi \<le> hi" by simp
      moreover have "bisect a x lo hi = bisect a x (?mid + 1) hi"
        using True right by (subst bisect.simps) (simp add: Let_def)
      ultimately show ?thesis using m by simp
    qed
  qed
qed

lemma random_choices_member:
  assumes "length population = length weights" and "population \<noteq> []"
    and "0 < sum_list weights"
  shows "\<exists>y. random_choices u population weights = Inr y \<and> y \<in> set population"
proof -
  let ?n = "length population"
  let ?cum = "accumulate weights"
  have len: "length ?cum = ?n" using assms(1) by (simp add: accumulate_def length_accumulate_from)
  have wne: "weights \<noteq> []" using assms(1,2) by auto
  have cne: "?cum \<noteq> []" using len assms(2) by auto
  have last: "last ?cum = sum_list weights"
    using last_accumulate_from [OF wne, of 0] by (simp add: accumulate_def)
  let ?i = "bisect ?cum (u * last ?cum) 0 (?n - 1)"
  have "?i \<le> ?n - 1" using bisect_bounds [of 0 "?n - 1" ?cum "u * last ?cum"] by simp
  moreover have "0 < ?n" using assms(2) by simp
  ultimately have i: "?i < ?n" by linarith
  have "random_choices u population weights = Inr (population ! ?i)"
    using len cne last assms(3) by (simp add: random_choices_def Let_def)
  moreover have "population ! ?i \<in> set population" using i by simp
  ultimately show ?thesis by blast
qed


lemma dict_add_result:
  assumes "dict_add m k x = Inr m'"
  shows "total_mass m' = total_mass m + x
         \<and> (0 \<le> x \<longrightarrow> (\<forall>v \<in> set (map snd m). 0 \<le> v) \<longrightarrow> (\<forall>v \<in> set (map snd m'). 0 \<le> v))"
proof -
  from assms obtain v where "map_of m k = Some v"
    by (auto simp: dict_add_def dict_get_def split: option.splits)
  then have "k \<in> set (keys m)" by (rule map_of_Some_key)
  from dict_add_step [OF this, of x] assms show ?thesis by auto
qed

lemma sample_loop_result:
  assumes "0 < n"
  shows "sample_loop rnd corpus d n k i pr cur = Inr pr' \<Longrightarrow>
         \<forall>v \<in> set (map snd pr). 0 \<le> v \<Longrightarrow>
         total_mass pr' = total_mass pr + real k / real_of_int n
         \<and> (\<forall>v \<in> set (map snd pr'). 0 \<le> v)"
proof (induction k arbitrary: i pr cur)
  case 0
  then show ?case by simp
next
  case (Suc k)
  let ?x = "1 / real_of_int n"
  have x: "0 \<le> ?x" using assms by simp
  from Suc.prems(1) obtain pr1 nxt where
    a: "dict_add pr cur ?x = Inr pr1"
    and r: "sample_loop rnd corpus d n k (Suc i) pr1 nxt = Inr pr'"
    by (auto split: sum.splits)
  from dict_add_result [OF a] x Suc.prems(2)
  have t1: "total_mass pr1 = total_mass pr + ?x" and nn1: "\<forall>v \<in> set (map snd pr1). 0 \<le> v"
    by simp_all
  from Suc.IH [OF r nn1]
  have t: "total_mass pr' = total_mass pr1 + real k / real_of_int n"
    and nn: "\<forall>v \<in> set (map snd pr'). 0 \<le> v" by simp_all
  from t t1 have "total_mass pr' = total_mass pr + real (Suc k) / real_of_int n"
    by (simp add: add_divide_distrib)
  with nn show ?case by simp
qed

lemma sample_loop_returns:
  assumes "graph_model corpus" and "corpus \<noteq> []" and "d < 1"
  shows "keys pr = keys corpus \<Longrightarrow> cur \<in> set (keys corpus) \<Longrightarrow>
         \<exists>pr'. sample_loop rnd corpus d n k i pr cur = Inr pr' \<and> keys pr' = keys corpus"
proof (induction k arbitrary: i pr cur)
  case 0
  then show ?case by simp
next
  case (Suc k)
  let ?x = "1 / real_of_int n"
  from Suc.prems have "cur \<in> set (keys pr)" by simp
  from dict_add_step [OF this, of ?x] obtain pr1 where
    a: "dict_add pr cur ?x = Inr pr1" and k1: "keys pr1 = keys pr" by blast
  from transition_model_total [OF assms(1,2), of cur d] obtain tp where
    b: "transition_model corpus cur d = Inr tp" and kt: "keys tp = keys corpus"
    and tt: "total_mass tp = (1 - d) + (if linked_pages_of corpus cur = [] then 0 else d)"
    by blast
  have pos: "0 < sum_list (map snd tp)"
    using tt assms(3) by (simp add: total_mass_def split: if_splits)
  have len: "length (keys tp) = length (map snd tp)" by (simp add: keys_def)
  have ne: "keys tp \<noteq> []" using kt assms(2) by (simp add: keys_def)
  from random_choices_member [OF len ne pos, of "rnd i"] obtain nxt where
    c: "random_choices (rnd i) (keys tp) (map snd tp) = Inr nxt" and m: "nxt \<in> set (keys tp)"
    by blast
  from m kt have m': "nxt \<in> set (keys corpus)" by simp
  from k1 Suc.prems(1) have k1': "keys pr1 = keys corpus" by simp
  from Suc.IH [OF k1' m', of "Suc i"] obtain pr' where
    r: "sample_loop rnd corpus d n k (Suc i) pr1 nxt = Inr pr'" and k': "keys pr' = keys corpus"
    by blast
  have "sample_loop rnd corpus d n (Suc k) i pr cur = Inr pr'" using a b c r by simp
  with k' show ?case by blast
qed

lemma sum_list_all_zero:
  fixes xs :: "real list"
  shows "set xs \<subseteq> {0} \<Longrightarrow> sum_list xs = 0"
  by (induction xs) simp_all

lemma total_mass_zero_ranks: "total_mass (zero_ranks corpus) = 0"
  unfolding total_mass_def zero_ranks_def
  by (rule sum_list_all_zero) (use values_fold_dict_set_const [of 0 "keys corpus" "[]"] in simp)

lemma zero_ranks_nonneg: "\<forall>v \<in> set (map snd (zero_ranks corpus)). 0 \<le> v"
  using values_fold_dict_set_const [of 0 "keys corpus" "[]"] by (auto simp: zero_ranks_def)

lemma keys_zero_ranks: "distinct (keys corpus) \<Longrightarrow> keys (zero_ranks corpus) = keys corpus"
  by (simp add: zero_ranks_def fold_dict_set_keys keys_def o_def)

lemma random_choice_member:
  assumes "seq \<noteq> []" and "0 \<le> u" and "u < 1"
  shows "\<exists>y. random_choice u seq = Inr y \<and> y \<in> set seq"
proof -
  let ?len = "length seq"
  have pos: "0 < ?len" using assms(1) by simp
  have "u * real ?len < real ?len" using assms(3) pos by simp
  then have "\<lfloor>u * real ?len\<rfloor> < int ?len" by (simp add: floor_less_iff)
  then have lt: "nat \<lfloor>u * real ?len\<rfloor> < ?len" using pos by linarith
  then have "random_choice u seq = Inr (seq ! nat \<lfloor>u * real ?len\<rfloor>)"
    using assms(1) by (simp add: random_choice_def Let_def)
  moreover have "seq ! nat \<lfloor>u * real ?len\<rfloor> \<in> set seq" using lt by simp
  ultimately show ?thesis by blast
qed

lemma sample_pagerank_total:
  assumes "0 < n" and "sample_pagerank rnd corpus damping_factor n = Inr r"
  shows "total_mass r = 1 \<and> (\<forall>v \<in> set (map snd r). 0 \<le> v \<and> v \<le> 1)"
proof -
  from assms(2) obtain cur where
    "sample_loop rnd corpus damping_factor n (nat n) 1 (zero_ranks corpus) cur = Inr r"
    by (auto simp: sample_pagerank_def Let_def split: sum.splits)
  from sample_loop_result [OF assms(1) this zero_ranks_nonneg]
  have t: "total_mass r = real (nat n) / real_of_int n"
    and nn: "\<forall>v \<in> set (map snd r). 0 \<le> v"
    by (simp_all add: total_mass_zero_ranks)
  from t assms(1) have one: "total_mass r = 1" by simp
  have "\<forall>v \<in> set (map snd r). 0 \<le> v \<and> v \<le> 1"
  proof
    fix v
    assume v: "v \<in> set (map snd r)"
    have "v \<le> sum_list (map snd r)"
      using v nn by (intro member_le_sum_list) auto
    then have "v \<le> 1" using one by (simp add: total_mass_def)
    moreover from nn v have "0 \<le> v" by blast
    ultimately show "0 \<le> v \<and> v \<le> 1" by simp
  qed
  with one show ?thesis by simp
qed

lemma sample_pagerank_returns:
  assumes "graph_model corpus" and "corpus \<noteq> []" and "damping_factor < 1"
    and "0 \<le> rnd 0" and "rnd 0 < 1"
  shows "\<exists>r. sample_pagerank rnd corpus damping_factor n = Inr r \<and> keys r = keys corpus"
proof -
  have dk: "distinct (keys corpus)" using assms(1) by (simp add: graph_model_def)
  have kne: "keys corpus \<noteq> []" using assms(2) by (simp add: keys_def)
  from random_choice_member [OF kne assms(4,5)] obtain cur where
    s: "random_choice (rnd 0) (keys corpus) = Inr cur" and m: "cur \<in> set (keys corpus)" by blast
  from sample_loop_returns [OF assms(1,2,3) keys_zero_ranks [OF dk] m, of rnd n "nat n" 1]
  obtain r where
    "sample_loop rnd corpus damping_factor n (nat n) 1 (zero_ranks corpus) cur = Inr r"
    and "keys r = keys corpus" by blast
  with s show ?thesis by (simp add: sample_pagerank_def Let_def)
qed

lemma sample_pagerank_single_page:
  assumes "0 < n" and "damping_factor < 1" and "0 \<le> rnd 0" and "rnd 0 < 1"
  shows "sample_pagerank rnd [(p, [])] damping_factor n = Inr [(p, 1)]"
proof -
  have g: "graph_model [(p, [])]" by (simp add: graph_model_def keys_def)
  have ne: "[(p, [])] \<noteq> ([] :: corpus)" by simp
  from sample_pagerank_returns [of "[(p, [])]" damping_factor rnd n, OF g ne assms(2,3,4)]
  obtain r where
    run: "sample_pagerank rnd [(p, [])] damping_factor n = Inr r"
    and k: "keys r = [p]" by (auto simp: keys_def)
  from k obtain v where r: "r = [(p, v)]" by (cases r) (auto simp: keys_def)
  from sample_pagerank_total [OF assms(1) run] r have "v = 1" by (simp add: total_mass_def)
  with run r show ?thesis by simp
qed




end
